theory Spec2Isabelle
  imports Main "HOL-Library.Sublist" "HOL-Library.AList"
begin

section \<open>The WSL build target: path, environment and command translation\<close>

text \<open>
  A shallow embedding of the class \<open>WslExecCommand\<close> of \<open>src/wsl_exec.py\<close>, the revision
  of the plugin that has the drive rewrite, the conversion flags and the \<open>unix_\<close>
  variables. Python strings are lists of characters, read as the code points below 256;
  a Python \<open>dict\<close> is an association list with distinct keys in insertion order; an
  exception is the left summand of a result.
\<close>

subsection \<open>Strings\<close>

datatype error = IndexError | KeyError

text \<open>\<open>xs[i]\<close>: an index below zero counts from the end, and an index outside the list
  raises.\<close>

definition item :: "'a list \<Rightarrow> int \<Rightarrow> error + 'a" where
  "item xs i =
     (if 0 \<le> i \<and> i < int (length xs) then Inr (xs ! nat i)
      else if i < 0 \<and> - int (length xs) \<le> i then Inr (xs ! nat (int (length xs) + i))
      else Inl IndexError)"

abbreviation bsl :: char where
  "bsl \<equiv> CHR 0x5C"

text \<open>
  \<open>str.lower\<close> on one character: among the code points below 256 the upper-case letters
  are \<open>A\<close> to \<open>Z\<close> and \<open>0xC0\<close> to \<open>0xDE\<close> without the multiplication sign \<open>0xD7\<close>, and each
  lies 32 below its lower-case letter.
\<close>

definition lower :: "char \<Rightarrow> char" where
  "lower c =
     (let n = (of_char c :: nat) in
      if (65 \<le> n \<and> n \<le> 90) \<or> (192 \<le> n \<and> n \<le> 222 \<and> n \<noteq> 215)
      then char_of (n + 32) else c)"

text \<open>\<open>s.replace("\\", "/")\<close>: every backslash becomes a forward slash.\<close>

definition replace_bsl :: "string \<Rightarrow> string" where
  "replace_bsl s = map (\<lambda>c. if c = bsl then CHR ''/'' else c) s"

text \<open>The literal part of the pattern \<open>r"\\\\wsl\.localhost\\[^\\]*"\<close>: two backslashes,
  \<open>wsl.localhost\<close> and one backslash.\<close>

definition unc_prefix :: string where
  "unc_prefix = [bsl, bsl] @ ''wsl.localhost'' @ [bsl]"

text \<open>
  \<open>re.sub(r"\\\\wsl\.localhost\\[^\\]*", "", path)\<close>: the string is scanned from the left;
  where the literal matches, it is removed together with the longest run of characters
  other than a backslash that follows it, and the scan goes on behind the match;
  elsewhere the character is kept.
\<close>

function re_sub_unc :: "string \<Rightarrow> string" where
  "re_sub_unc [] = []"
| "re_sub_unc (c # cs) =
     (if prefix unc_prefix (c # cs)
      then re_sub_unc (dropWhile (\<lambda>x. x \<noteq> bsl) (drop (length unc_prefix) (c # cs)))
      else c # re_sub_unc cs)"
  by pat_completeness auto
termination
proof (relation "measure length")
  show "wf (measure length)" by simp
next
  fix c :: char and cs :: string
  have "length (dropWhile (\<lambda>x. x \<noteq> bsl) (drop (length unc_prefix) (c # cs)))
        \<le> length (drop (length unc_prefix) (c # cs))"
    by (rule length_dropWhile_le)
  also have "\<dots> < length (c # cs)"
    by (simp add: unc_prefix_def)
  finally show "(dropWhile (\<lambda>x. x \<noteq> bsl) (drop (length unc_prefix) (c # cs)), c # cs)
                \<in> measure length"
    by simp
next
  fix c :: char and cs :: string
  show "(cs, c # cs) \<in> measure length" by simp
qed

subsection \<open>The path translator\<close>

text \<open>
  \<open>wsl_path\<close>: a path that starts with two backslashes loses every \<open>wsl.localhost\<close> prefix;
  otherwise a path whose slice \<open>path[1:3]\<close> is a colon and a backslash is rewritten to
  \<open>/mnt/\<close>, the lower-cased \<open>path[0]\<close> and \<open>path[2:]\<close>; at the end the backslashes are replaced.
  The slices \<open>path[1:3]\<close> and \<open>path[2:]\<close> are \<open>take 2 (drop 1 path)\<close> and \<open>drop 2 path\<close>;
  \<open>path[0]\<close> raises on the empty string.
\<close>

definition wsl_path :: "string \<Rightarrow> error + string" where
  "wsl_path path =
     (if prefix [bsl, bsl] path then Inr (replace_bsl (re_sub_unc path))
      else if take 2 (drop 1 path) = [CHR '':'', bsl] then
        (case item path 0 of
           Inl e \<Rightarrow> Inl e
         | Inr c \<Rightarrow> Inr (replace_bsl (''/mnt/'' @ [lower c] @ drop 2 path)))
      else Inr (replace_bsl path))"

subsection \<open>The command assembler\<close>

text \<open>\<open>wsl_cmd\<close>: the token \<open>wsl\<close>, then \<open>cd\<close>, the translated directory and \<open>;\<close> when the
  working directory is not empty, then the command.\<close>

definition wsl_cmd :: "string list \<Rightarrow> string \<Rightarrow> error + string list" where
  "wsl_cmd cmd cwd =
     (if cwd \<noteq> [] then
        (case wsl_path cwd of
           Inl e \<Rightarrow> Inl e
         | Inr p \<Rightarrow> Inr ([''wsl''] @ [''cd'', p, '';''] @ cmd))
      else Inr ([''wsl''] @ cmd))"

subsection \<open>The environment packager\<close>

type_synonym 'v dict = "(string \<times> 'v) list"

text \<open>\<open>sep.join(xs)\<close>.\<close>

fun join :: "string \<Rightarrow> string list \<Rightarrow> string" where
  "join sep [] = []"
| "join sep [x] = x"
| "join sep (x # y # ys) = x @ sep @ join sep (y # ys)"

text \<open>\<open>d.pop(k)\<close>: the value of the key and the dictionary without it; a missing key
  raises. \<open>d[k] = v\<close> is \<open>AList.update k v d\<close>: an old key keeps its place, a new one goes
  to the end.\<close>

definition pop :: "string \<Rightarrow> 'v dict \<Rightarrow> error + ('v \<times> 'v dict)" where
  "pop k d = (case map_of d k of None \<Rightarrow> Inl KeyError | Some v \<Rightarrow> Inr (v, AList.delete k d))"

text \<open>The test \<open>key[-2] == "/" and key[-1] in ("l", "p", "u", "w")\<close>; \<open>key[-1]\<close> is read only
  when the first comparison holds.\<close>

definition has_flag :: "string \<Rightarrow> error + bool" where
  "has_flag key =
     (case item key (- 2) of
        Inl e \<Rightarrow> Inl e
      | Inr a \<Rightarrow>
          if a = CHR ''/'' then
            (case item key (- 1) of
               Inl e \<Rightarrow> Inl e
             | Inr b \<Rightarrow> Inr (b \<in> set ''lpuw''))
          else Inr False)"

text \<open>The slice \<open>key[:-2]\<close>.\<close>

definition unflagged :: "string \<Rightarrow> string" where
  "unflagged key = take (length key - 2) key"

text \<open>The loop \<open>for key in list(env)\<close> over the keys as they were before the loop: a
  flagged key is popped and its value stored under the name without the flag.\<close>

fun strip_flags :: "string list \<Rightarrow> string dict \<Rightarrow> error + string dict" where
  "strip_flags [] env = Inr env"
| "strip_flags (key # keys) env =
     (case has_flag key of
        Inl e \<Rightarrow> Inl e
      | Inr False \<Rightarrow> strip_flags keys env
      | Inr True \<Rightarrow>
          (case pop key env of
             Inl e \<Rightarrow> Inl e
           | Inr (v, env') \<Rightarrow> strip_flags keys (AList.update (unflagged key) v env')))"

text \<open>\<open>wsl_env\<close>: \<open>WSLENV\<close> is set to the keys joined by colons, then the flags are stripped.\<close>

definition wsl_env :: "string dict \<Rightarrow> error + string dict" where
  "wsl_env env =
     (let env1 = AList.update ''WSLENV'' (join '':'' (map fst env)) env
      in strip_flags (map fst env1) env1)"

text \<open>A key counts as flagged when the test of the loop holds for it.\<close>

definition flagged :: "string \<Rightarrow> bool" where
  "flagged key = (has_flag key = Inr True)"

subsection \<open>The orchestration\<close>

text \<open>The values of a build system's parameters.\<close>

datatype pyval =
  PStr string | PList "pyval list" | PDict "(string \<times> pyval) list"
  | PBool bool | PNum int | PNone

text \<open>
  Modelled from the spec: \<open>sublime.expand_variables\<close> belongs to the editor. It substitutes
  the variables in every string of a value and keeps the structure and the keys of the
  value; the substitution in one string against a table is the parameter \<open>subst\<close>.
\<close>

primrec expand_variables :: "(string dict \<Rightarrow> string \<Rightarrow> string) \<Rightarrow> string dict \<Rightarrow> pyval \<Rightarrow> pyval" where
  "expand_variables subst variables (PStr s) = PStr (subst variables s)"
| "expand_variables subst variables (PList xs) = PList (map (expand_variables subst variables) xs)"
| "expand_variables subst variables (PDict kvs) =
     PDict (map (map_prod id (expand_variables subst variables)) kvs)"
| "expand_variables subst variables (PBool b) = PBool b"
| "expand_variables subst variables (PNum n) = PNum n"
| "expand_variables subst variables PNone = PNone"

text \<open>The variables of the loop in \<open>run\<close>, the name \<open>"unix_" + var\<close>, and the loop itself
  over the variables in some order: \<open>variables["unix_" + var] = self.wsl_path(variables[var])\<close>.\<close>

definition unix_name :: "string \<Rightarrow> string" where
  "unix_name var = ''unix_'' @ var"

definition path_variables :: "string list" where
  "path_variables =
     [''file'', ''file_path'', ''folder'', ''packages'', ''project'', ''project_path'']"

fun add_unix_variables :: "string list \<Rightarrow> string dict \<Rightarrow> error + string dict" where
  "add_unix_variables [] variables = Inr variables"
| "add_unix_variables (var # vars) variables =
     (case map_of variables var of
        None \<Rightarrow> Inl KeyError
      | Some p \<Rightarrow>
          (case wsl_path p of
             Inl e \<Rightarrow> Inl e
           | Inr u \<Rightarrow> add_unix_variables vars (AList.update (unix_name var) u variables)))"

text \<open>The variables of the editor that the class documents (\<open>DEFAULT EXEC VARIABLES\<close>).\<close>

definition default_variables :: "string list" where
  "default_variables =
     [''file'', ''file_base_name'', ''file_extension'', ''file_name'', ''file_path'',
      ''folder'', ''packages'', ''project'', ''project_base_name'', ''project_extension'',
      ''project_name'', ''project_path'', ''platform'']"

text \<open>The comprehension at the head of \<open>run\<close>: the parameters but \<open>env\<close>, \<open>shell_cmd\<close> and
  \<open>working_dir\<close>, in their order.\<close>

definition drop_arguments :: "'v dict \<Rightarrow> 'v dict" where
  "drop_arguments kwargs =
     filter (\<lambda>(k, v). k \<notin> {''env'', ''shell_cmd'', ''working_dir''}) kwargs"

text \<open>
  \<open>run\<close>, up to the call of the engine: the result is the parameter set handed to
  \<open>super().run\<close>. The table of the window (\<open>self.window.extract_variables()\<close>) and the order
  in which the set of path variables is iterated are parameters. \<open>wsl_env\<close> is \<open>None\<close> or
  a dictionary, and only a dictionary with an entry is true.
\<close>

definition run ::
  "(string dict \<Rightarrow> string \<Rightarrow> string) \<Rightarrow> string dict \<Rightarrow> string list \<Rightarrow>
   string list \<Rightarrow> string \<Rightarrow> string dict option \<Rightarrow> pyval dict \<Rightarrow> error + pyval dict" where
  "run subst window_variables order wsl_cmd_arg wsl_working_dir wsl_env_arg kwargs =
     (let args0 = drop_arguments kwargs in
      case wsl_cmd wsl_cmd_arg wsl_working_dir of
        Inl e \<Rightarrow> Inl e
      | Inr cmd \<Rightarrow>
          let args1 = AList.update ''cmd'' (PList (map PStr cmd)) args0 in
          case (case wsl_env_arg of
                  None \<Rightarrow> Inr args1
                | Some env \<Rightarrow>
                    if env = [] then Inr args1
                    else (case wsl_env env of
                            Inl e \<Rightarrow> Inl e
                          | Inr env' \<Rightarrow>
                              Inr (AList.update ''env''
                                    (PDict (map (map_prod id PStr) env')) args1))) of
            Inl e \<Rightarrow> Inl e
          | Inr args2 \<Rightarrow>
              (case add_unix_variables order window_variables of
                 Inl e \<Rightarrow> Inl e
               | Inr variables \<Rightarrow>
                   Inr (map (map_prod id (expand_variables subst variables)) args2)))"

subsection \<open>The earlier revision\<close>

text \<open>
  \<open>src/main.py\<close> holds an earlier revision of the same class, without the drive rewrite
  and the flags. Its \<open>wsl_path\<close> removes the pattern \<open>"\\\\\\\\wsl.localhost\\\\Ubuntu"\<close>, in
  which the dot stands for any character but a newline, and replaces the backslashes; its
  \<open>wsl_env\<close> only sets \<open>WSLENV\<close>.
\<close>

definition main_unc_match :: "string \<Rightarrow> bool" where
  "main_unc_match s =
     (22 \<le> length s \<and> take 5 s = [bsl, bsl] @ ''wsl'' \<and> s ! 5 \<noteq> CHR 0x0A \<and>
      take 16 (drop 6 s) = ''localhost'' @ [bsl] @ ''Ubuntu'')"

function main_re_sub :: "string \<Rightarrow> string" where
  "main_re_sub [] = []"
| "main_re_sub (c # cs) =
     (if main_unc_match (c # cs) then main_re_sub (drop 22 (c # cs)) else c # main_re_sub cs)"
  by pat_completeness auto
termination
  by (relation "measure length") auto

definition main_wsl_path :: "string \<Rightarrow> string" where
  "main_wsl_path s = replace_bsl (main_re_sub s)"

definition main_wsl_env :: "string dict \<Rightarrow> string dict" where
  "main_wsl_env d = AList.update ''WSLENV'' (join '':'' (map fst d)) d"

section \<open>Properties of the path translator\<close>

lemma replace_bsl_id: "bsl \<notin> set s \<Longrightarrow> replace_bsl s = s"
  by (induction s) (auto simp: replace_bsl_def)

lemma replace_bsl_no_bsl: "bsl \<notin> set (replace_bsl s)"
  by (auto simp: replace_bsl_def)

lemma replace_bsl_append: "replace_bsl (xs @ ys) = replace_bsl xs @ replace_bsl ys"
  by (simp add: replace_bsl_def)

lemma wsl_path_total: "\<exists>r. wsl_path path = Inr r"
  by (cases path) (auto simp: wsl_path_def item_def)

lemma wsl_path_no_bsl: "wsl_path path = Inr r \<Longrightarrow> bsl \<notin> set r"
  by (auto simp: wsl_path_def replace_bsl_no_bsl split: if_splits sum.splits)

lemma wsl_path_plain: "bsl \<notin> set p \<Longrightarrow> wsl_path p = Inr p"
proof -
  assume h: "bsl \<notin> set p"
  have a: "\<not> prefix [bsl, bsl] p"
    using h by (auto simp: prefix_def)
  have b: "take 2 (drop 1 p) \<noteq> [CHR '':'', bsl]"
  proof
    assume "take 2 (drop 1 p) = [CHR '':'', bsl]"
    then have "bsl \<in> set (take 2 (drop 1 p))" by simp
    then have "bsl \<in> set p"
      by (meson in_set_dropD in_set_takeD)
    with h show False by simp
  qed
  show ?thesis
    using a b h by (simp add: wsl_path_def replace_bsl_id)
qed

lemma lower_bsl: "lower c = bsl \<longleftrightarrow> c = bsl"
proof -
  have "(of_char (lower c) :: nat) = 92 \<longleftrightarrow> (of_char c :: nat) = 92"
    by (auto simp: lower_def Let_def)
  moreover have "(of_char bsl :: nat) = 92" by simp
  ultimately show ?thesis
    by (metis of_char_eq_iff)
qed

lemma re_sub_unc_none: "\<not> sublist unc_prefix s \<Longrightarrow> re_sub_unc s = s"
proof (induction s)
  case Nil
  then show ?case by simp
next
  case (Cons c cs)
  then show ?case
    by (auto simp: sublist_Cons_right)
qed

lemma re_sub_unc_prefix:
  "bsl \<notin> set distro \<Longrightarrow>
   re_sub_unc (unc_prefix @ distro @ bsl # rest) = re_sub_unc (bsl # rest)"
proof -
  assume h: "bsl \<notin> set distro"
  have ne: "unc_prefix @ distro @ bsl # rest = bsl # tl (unc_prefix @ distro @ bsl # rest)"
    by (simp add: unc_prefix_def)
  have "re_sub_unc (bsl # tl (unc_prefix @ distro @ bsl # rest)) =
        re_sub_unc (dropWhile (\<lambda>x. x \<noteq> bsl)
          (drop (length unc_prefix) (unc_prefix @ distro @ bsl # rest)))"
    apply (subst re_sub_unc.simps(2))
    using ne by (metis prefixI)
  also have "dropWhile (\<lambda>x. x \<noteq> bsl)
      (drop (length unc_prefix) (unc_prefix @ distro @ bsl # rest)) = bsl # rest"
    using h by (auto simp: dropWhile_append3)
  finally show ?thesis using ne by simp
qed

text \<open>
  C1, as the code has it. The pattern names the host \<open>wsl.localhost\<close>, so a UNC path of
  another host keeps its prefix. For a path made of \<open>unc_prefix\<close>, any distro name, a
  backslash and a remainder in which \<open>unc_prefix\<close> does not occur again, \<open>wsl_path\<close>
  removes the prefix with the distro name and returns the remainder, rooted at \<open>/\<close>, with
  forward slashes.
\<close>

theorem wsl_path_unc_localhost:
  assumes "bsl \<notin> set distro" and "\<not> sublist unc_prefix (bsl # rest)"
  shows "wsl_path (unc_prefix @ distro @ bsl # rest) = Inr (CHR ''/'' # replace_bsl rest)"
proof -
  have p: "prefix [bsl, bsl] (unc_prefix @ distro @ bsl # rest)"
    by (simp add: unc_prefix_def)
  have "re_sub_unc (unc_prefix @ distro @ bsl # rest) = bsl # rest"
    using re_sub_unc_prefix [OF assms(1), of rest] re_sub_unc_none [OF assms(2)]
    by (simp only:)
  then show ?thesis
    using p by (simp add: wsl_path_def replace_bsl_def)
qed

theorem wsl_path_unc_localhost_witness:
  "bsl \<notin> set ''Distro'' \<and> \<not> sublist unc_prefix (bsl # ''a'' @ [bsl] @ ''b'') \<and>
   wsl_path (unc_prefix @ ''Distro'' @ bsl # ''a'' @ [bsl] @ ''b'') = Inr ''/a/b''"
proof -
  have h1: "bsl \<notin> set ''Distro''" by simp
  have h2: "\<not> sublist unc_prefix (bsl # ''a'' @ [bsl] @ ''b'')"
    by (simp add: unc_prefix_def sublist_Cons_right)
  show ?thesis
    using wsl_path_unc_localhost [OF h1 h2] h1 h2 by (simp add: replace_bsl_def)
qed

text \<open>A UNC path of the host \<open>host\<close> and the distro \<open>Distro\<close> keeps both.\<close>

theorem wsl_path_unc_other_host:
  "wsl_path ([bsl, bsl] @ ''host'' @ [bsl] @ ''Distro'' @ [bsl] @ ''a'' @ [bsl] @ ''b'')
     = Inr ''//host/Distro/a/b'' \<and>
   wsl_path ([bsl, bsl] @ ''host'' @ [bsl] @ ''Distro'' @ [bsl] @ ''a'' @ [bsl] @ ''b'')
     \<noteq> Inr ''/a/b''"
  by (simp add: wsl_path_def replace_bsl_def unc_prefix_def)

text \<open>A further \<open>unc_prefix\<close> inside the remainder is removed as well, with the name
  behind it.\<close>

lemma wsl_path_unc_twice:
  "wsl_path (unc_prefix @ ''U'' @ unc_prefix @ ''x'' @ [bsl] @ ''a'') = Inr ''/a''"
  by (simp add: wsl_path_def replace_bsl_def unc_prefix_def)

text \<open>
  C4. A local drive path, a letter, a colon, a backslash and a remainder, becomes
  \<open>/mnt/\<close>, the lower-cased letter, \<open>/\<close> and the remainder with forward slashes. It holds
  for every first character other than a backslash, so for every drive letter.
\<close>

theorem wsl_path_drive:
  "c \<noteq> bsl \<Longrightarrow>
   wsl_path (c # CHR '':'' # bsl # rest) = Inr (''/mnt/'' @ [lower c] @ CHR ''/'' # replace_bsl rest)"
  by (simp add: wsl_path_def item_def replace_bsl_def lower_bsl)

theorem wsl_path_drive_witness:
  "CHR ''X'' \<noteq> bsl \<and> wsl_path (''X:'' @ [bsl] @ ''a'' @ [bsl] @ ''b'') = Inr ''/mnt/x/a/b''"
proof -
  have h: "CHR ''X'' \<noteq> bsl" by simp
  have l: "lower CHR ''X'' = CHR ''x''" by code_simp
  show ?thesis
    using wsl_path_drive [OF h, of "''a'' @ [bsl] @ ''b''"] l
    by (simp add: replace_bsl_def)
qed

text \<open>
  C5. With an empty working directory \<open>wsl_cmd\<close> returns \<open>wsl\<close> and the command; with any
  other it returns \<open>wsl\<close>, \<open>cd\<close>, the translated directory, \<open>;\<close> and the command. The
  command follows the prefix unchanged.
\<close>

theorem wsl_cmd_assemble:
  "(cwd = [] \<longrightarrow> wsl_cmd cmd cwd = Inr ([''wsl''] @ cmd)) \<and>
   (cwd \<noteq> [] \<longrightarrow>
      (\<exists>p. wsl_path cwd = Inr p \<and> wsl_cmd cmd cwd = Inr ([''wsl'', ''cd'', p, '';''] @ cmd)))"
  using wsl_path_total [of cwd] by (auto simp: wsl_cmd_def)

theorem wsl_cmd_assemble_witness:
  "wsl_cmd [''a'', ''b''] [] = Inr [''wsl'', ''a'', ''b''] \<and>
   wsl_cmd [''a''] (''C:'' @ [bsl] @ ''proj'') = Inr [''wsl'', ''cd'', ''/mnt/c/proj'', '';'', ''a'']"
proof -
  have p: "wsl_path (''C:'' @ [bsl] @ ''proj'') = Inr ''/mnt/c/proj''"
    by code_simp
  show ?thesis
    using wsl_cmd_assemble [of "[]" "[''a'', ''b'']"]
      wsl_cmd_assemble [of "''C:'' @ [bsl] @ ''proj''" "[''a'']"] p
    by simp
qed

text \<open>
  C9. On a path without a backslash \<open>wsl_path\<close> is idempotent: it returns a path, and
  translating that path returns it again.
\<close>

theorem wsl_path_idempotent:
  "bsl \<notin> set p \<Longrightarrow> \<exists>r. wsl_path p = Inr r \<and> wsl_path r = Inr r"
  by (simp add: wsl_path_plain)

theorem wsl_path_idempotent_witness:
  "bsl \<notin> set ''/mnt/c/a'' \<and>
   (\<exists>r. wsl_path ''/mnt/c/a'' = Inr r \<and> wsl_path r = Inr r)"
proof -
  have h: "bsl \<notin> set ''/mnt/c/a''" by simp
  show ?thesis
    using wsl_path_idempotent [OF h] h by blast
qed

text \<open>The second translation changes no result of the first, with or without backslashes
  in the path.\<close>

lemma wsl_path_twice: "wsl_path p = Inr r \<Longrightarrow> wsl_path r = Inr r"
  by (simp add: wsl_path_no_bsl wsl_path_plain)

text \<open>
  C10, as the code has it. For every string whose second and third characters are a colon
  and a backslash, whatever the first character, \<open>wsl_path\<close> returns \<open>/mnt/\<close>, the lower-cased first
  character, \<open>/\<close> and the remainder, with every backslash replaced by a forward slash:
  those of the remainder, and the first character when it is a backslash.
\<close>

theorem wsl_path_colon_backslash:
  "wsl_path (c # CHR '':'' # bsl # rest)
     = Inr (''/mnt/'' @ replace_bsl [lower c] @ CHR ''/'' # replace_bsl rest)"
  by (simp add: wsl_path_def item_def replace_bsl_def)

theorem wsl_path_colon_backslash_witness:
  "wsl_path (''1:'' @ [bsl] @ ''a'') = Inr ''/mnt/1/a''"
proof -
  have l: "lower CHR ''1'' = CHR ''1''" by code_simp
  show ?thesis
    using wsl_path_colon_backslash [of "CHR ''1''" "''a''"] l
    by (simp add: replace_bsl_def)
qed

text \<open>With a backslash as first character the result has a forward slash in its place,
  not the character itself.\<close>

theorem wsl_path_backslash_drive:
  "wsl_path ([bsl] @ '':'' @ [bsl] @ ''a'') = Inr ''/mnt///a'' \<and>
   wsl_path ([bsl] @ '':'' @ [bsl] @ ''a'') \<noteq> Inr (''/mnt/'' @ [lower bsl] @ ''/a'')"
  by (simp add: wsl_path_def item_def replace_bsl_def lower_def)

section \<open>Properties of the environment packager\<close>

lemma has_flag_short: "length key < 2 \<Longrightarrow> has_flag key = Inl IndexError"
  by (simp add: has_flag_def item_def)

lemma has_flag_long:
  "2 \<le> length key \<Longrightarrow>
   has_flag key = Inr (key ! (length key - 2) = CHR ''/'' \<and> key ! (length key - 1) \<in> set ''lpuw'')"
  by (auto simp: has_flag_def item_def nat_diff_distrib' int_ops)

lemma has_flag_flagged: "2 \<le> length key \<Longrightarrow> has_flag key = Inr (flagged key)"
  by (simp add: flagged_def has_flag_long)

lemma flagged_length: "flagged key \<Longrightarrow> 2 \<le> length key"
  by (rule ccontr) (simp add: flagged_def has_flag_short)

lemma unflagged_neq: "flagged key \<Longrightarrow> unflagged key \<noteq> key"
proof
  assume f: "flagged key" and e: "unflagged key = key"
  have "length (unflagged key) = length key - 2"
    by (simp add: unflagged_def)
  with e flagged_length [OF f] show False by simp
qed

lemma pop_eq: "pop k d = Inr (v, d') \<longleftrightarrow> map_of d k = Some v \<and> d' = AList.delete k d"
  by (auto simp: pop_def split: option.splits)

lemma strip_flags_lengths:
  "strip_flags ks env = Inr out \<Longrightarrow> \<forall>k\<in>set ks. 2 \<le> length k"
proof (induction ks arbitrary: env)
  case Nil
  then show ?case by simp
next
  case (Cons k ks)
  have len: "2 \<le> length k"
  proof (rule ccontr)
    assume "\<not> 2 \<le> length k"
    then have "has_flag k = Inl IndexError" by (simp add: has_flag_short)
    with Cons.prems show False by simp
  qed
  from Cons.prems obtain env' where "strip_flags ks env' = Inr out"
    by (auto split: sum.splits bool.splits)
  then have "\<forall>k\<in>set ks. 2 \<le> length k" by (rule Cons.IH)
  with len show ?case by simp
qed

lemma strip_flags_ok:
  "distinct ks \<Longrightarrow> \<forall>k\<in>set ks. 2 \<le> length k \<Longrightarrow>
   \<forall>k\<in>set ks. flagged k \<longrightarrow> k \<in> fst ` set env \<Longrightarrow> \<exists>out. strip_flags ks env = Inr out"
proof (induction ks arbitrary: env)
  case Nil
  then show ?case by simp
next
  case (Cons k ks)
  have hf: "has_flag k = Inr (flagged k)"
    using Cons.prems(2) by (simp add: has_flag_flagged)
  show ?case
  proof (cases "flagged k")
    case False
    have "\<exists>out. strip_flags ks env = Inr out"
      using Cons.prems by (intro Cons.IH) auto
    with hf False show ?thesis by simp
  next
    case True
    then have "k \<in> fst ` set env" using Cons.prems(3) by simp
    then obtain v where v: "map_of env k = Some v"
      by (metis domD dom_map_of_conv_image_fst)
    let ?env = "AList.update (unflagged k) v (AList.delete k env)"
    have keys: "\<forall>a\<in>set ks. flagged a \<longrightarrow> a \<in> fst ` set ?env"
    proof (intro ballI impI)
      fix a assume a: "a \<in> set ks" "flagged a"
      then have "a \<in> fst ` set env" using Cons.prems(3) by simp
      moreover have "a \<noteq> k" using a Cons.prems(1) by auto
      ultimately have "a \<in> dom (map_of (AList.delete k env))"
        by (simp add: AList.delete_conv' dom_map_of_conv_image_fst)
      then have "a \<in> fst ` set (AList.delete k env)"
        by (simp add: dom_map_of_conv_image_fst)
      then show "a \<in> fst ` set ?env"
        by (simp add: AList.dom_update)
    qed
    have "\<exists>out. strip_flags ks ?env = Inr out"
      using Cons.prems keys by (intro Cons.IH) auto
    with hf True v show ?thesis by (simp add: pop_def)
  qed
qed

lemma strip_flags_frame:
  "strip_flags ks env = Inr out \<Longrightarrow> \<forall>k\<in>set ks. flagged k \<longrightarrow> unflagged k \<noteq> x \<Longrightarrow>
   x \<in> set ks \<longrightarrow> \<not> flagged x \<Longrightarrow> map_of out x = map_of env x"
proof (induction ks arbitrary: env)
  case Nil
  then show ?case by simp
next
  case (Cons k ks)
  have len: "2 \<le> length k"
    using strip_flags_lengths [OF Cons.prems(1)] by simp
  have hf: "has_flag k = Inr (flagged k)"
    using len by (simp add: has_flag_flagged)
  show ?case
  proof (cases "flagged k")
    case False
    with hf Cons.prems(1) have "strip_flags ks env = Inr out" by simp
    then show ?thesis using Cons.prems by (intro Cons.IH) auto
  next
    case True
    with hf Cons.prems(1) obtain v where v: "map_of env k = Some v"
      and s: "strip_flags ks (AList.update (unflagged k) v (AList.delete k env)) = Inr out"
      by (auto simp: pop_def split: option.splits)
    have "map_of out x = map_of (AList.update (unflagged k) v (AList.delete k env)) x"
      using s Cons.prems by (intro Cons.IH) auto
    moreover have "x \<noteq> unflagged k" "x \<noteq> k"
      using True Cons.prems by auto
    ultimately show ?thesis
      by (simp add: AList.update_conv' AList.delete_conv')
  qed
qed


lemma strip_flags_emit:
  "strip_flags ks env = Inr out \<Longrightarrow> distinct ks \<Longrightarrow>
   \<forall>a\<in>set ks. \<forall>b\<in>set ks. flagged a \<and> flagged b \<and> unflagged a = unflagged b \<longrightarrow> a = b \<Longrightarrow>
   \<forall>a\<in>set ks. flagged a \<longrightarrow> \<not> (unflagged a \<in> set ks \<and> flagged (unflagged a)) \<Longrightarrow>
   k \<in> set ks \<Longrightarrow> flagged k \<Longrightarrow>
   map_of out (unflagged k) = map_of env k \<and> map_of env k \<noteq> None \<and> map_of out k = None"
proof (induction ks arbitrary: env)
  case Nil
  then show ?case by simp
next
  case (Cons h ks)
  have len: "2 \<le> length h"
    using strip_flags_lengths [OF Cons.prems(1)] by simp
  have hf: "has_flag h = Inr (flagged h)"
    using len by (simp add: has_flag_flagged)
  have inj: "\<forall>a\<in>set ks. \<forall>b\<in>set ks. flagged a \<and> flagged b \<and> unflagged a = unflagged b \<longrightarrow> a = b"
    using Cons.prems(3) by simp
  have nest: "\<forall>a\<in>set ks. flagged a \<longrightarrow> \<not> (unflagged a \<in> set ks \<and> flagged (unflagged a))"
    using Cons.prems(4) by auto
  have dist: "distinct ks" "h \<notin> set ks"
    using Cons.prems(2) by simp_all
  show ?case
  proof (cases "flagged h")
    case False
    with hf Cons.prems(1) have s: "strip_flags ks env = Inr out" by simp
    from False Cons.prems(5,6) have "k \<in> set ks" by auto
    with s dist inj nest Cons.prems(6) show ?thesis
      by (intro Cons.IH)
  next
    case True
    with hf Cons.prems(1) obtain v where v: "map_of env h = Some v"
      and s: "strip_flags ks (AList.update (unflagged h) v (AList.delete h env)) = Inr out"
      by (auto simp: pop_def split: option.splits)
    let ?env = "AList.update (unflagged h) v (AList.delete h env)"
    have m: "map_of ?env = ((map_of env)(h := None))(unflagged h \<mapsto> v)"
      by (simp add: AList.update_conv' AList.delete_conv')
    show ?thesis
    proof (cases "k = h")
      case True
      have a1: "\<forall>a\<in>set ks. flagged a \<longrightarrow> unflagged a \<noteq> unflagged h"
        using Cons.prems(3) \<open>flagged h\<close> dist(2) by auto
      have a2: "unflagged h \<in> set ks \<longrightarrow> \<not> flagged (unflagged h)"
        using Cons.prems(4) \<open>flagged h\<close> by auto
      have "map_of out (unflagged h) = map_of ?env (unflagged h)"
        using s a1 a2 by (rule strip_flags_frame)
      then have r1: "map_of out (unflagged h) = Some v"
        by (simp add: m)
      have b1: "\<forall>a\<in>set ks. flagged a \<longrightarrow> unflagged a \<noteq> h"
        using Cons.prems(4) \<open>flagged h\<close> by auto
      have b2: "h \<in> set ks \<longrightarrow> \<not> flagged h"
        using dist(2) by simp
      have "map_of out h = map_of ?env h"
        using s b1 b2 by (rule strip_flags_frame)
      then have r2: "map_of out h = None"
        using unflagged_neq [OF \<open>flagged h\<close>] by (simp add: m)
      from r1 r2 v True show ?thesis by simp
    next
      case False
      with Cons.prems(5) have kin: "k \<in> set ks" by simp
      have ih: "map_of out (unflagged k) = map_of ?env k \<and> map_of ?env k \<noteq> None \<and> map_of out k = None"
        using s dist(1) inj nest kin Cons.prems(6) by (rule Cons.IH)
      have "k \<noteq> unflagged h"
        using Cons.prems(4,6) \<open>flagged h\<close> kin by auto
      with False have "map_of ?env k = map_of env k"
        by (simp add: m)
      with ih show ?thesis by simp
    qed
  qed
qed

lemma wslenv_unflagged: "\<not> flagged ''WSLENV''"
  by (simp add: flagged_def has_flag_def item_def)

lemma wsl_env_ok:
  assumes d: "distinct (map fst env)" and l: "\<forall>k\<in>set (map fst env). 2 \<le> length k"
  shows "\<exists>out. wsl_env env = Inr out"
proof -
  let ?env1 = "AList.update ''WSLENV'' (join '':'' (map fst env)) env"
  have k1: "set (map fst ?env1) = insert ''WSLENV'' (set (map fst env))"
    using AList.dom_update [of "''WSLENV''" _ env] by simp
  have "distinct (map fst ?env1)"
    using d by (rule AList.distinct_update)
  moreover have "\<forall>k\<in>set (map fst ?env1). 2 \<le> length k"
    using l k1 by auto
  moreover have "\<forall>k\<in>set (map fst ?env1). flagged k \<longrightarrow> k \<in> fst ` set ?env1"
    by simp
  ultimately have "\<exists>out. strip_flags (map fst ?env1) ?env1 = Inr out"
    by (rule strip_flags_ok)
  then show ?thesis by (simp add: wsl_env_def Let_def)
qed

text \<open>\<open>wsl_env\<close> returns a dictionary exactly when every key has two characters or more.\<close>

lemma wsl_env_returns_iff:
  assumes "distinct (map fst env)"
  shows "(\<exists>out. wsl_env env = Inr out) \<longleftrightarrow> (\<forall>k\<in>set (map fst env). 2 \<le> length k)"
proof
  assume "\<exists>out. wsl_env env = Inr out"
  then obtain out where
    "strip_flags (map fst (AList.update ''WSLENV'' (join '':'' (map fst env)) env))
       (AList.update ''WSLENV'' (join '':'' (map fst env)) env) = Inr out"
    by (auto simp: wsl_env_def Let_def)
  then have a: "\<forall>k\<in>set (map fst (AList.update ''WSLENV'' (join '':'' (map fst env)) env)).
               2 \<le> length k"
    by (rule strip_flags_lengths)
  have b: "set (map fst (AList.update ''WSLENV'' (join '':'' (map fst env)) env))
           = insert ''WSLENV'' (set (map fst env))"
    using AList.dom_update [of "''WSLENV''" _ env] by simp
  show "\<forall>k\<in>set (map fst env). 2 \<le> length k"
    using a unfolding b by blast
next
  assume "\<forall>k\<in>set (map fst env). 2 \<le> length k"
  with assms show "\<exists>out. wsl_env env = Inr out" by (rule wsl_env_ok)
qed

text \<open>
  C2. \<open>wsl_path\<close> and \<open>wsl_cmd\<close> return on every input (\<open>wsl_path_total\<close>,
  \<open>wsl_cmd_total\<close>), and \<open>wsl_env\<close> does not: the test of the loop reads \<open>key[-2]\<close>, which
  raises \<open>IndexError\<close> on a key of fewer than two characters, here on the variable \<open>A\<close>.
\<close>

theorem wsl_env_short_key: "wsl_env [(''A'', ''1'')] = Inl IndexError"
  by (simp add: wsl_env_def has_flag_def item_def)

lemma wsl_cmd_total: "\<exists>r. wsl_cmd cmd cwd = Inr r"
  using wsl_path_total [of cwd] by (auto simp: wsl_cmd_def)

text \<open>
  C8, as the code has it. For a mapping whose keys have two characters or more and none
  of which is \<open>WSLENV\<close> with a flag, the output has \<open>WSLENV\<close> set to the keys of the input,
  flags included, joined by colons in the order of the input.
\<close>

theorem wsl_env_manifest:
  assumes d: "distinct (map fst env)" and l: "\<forall>k\<in>set (map fst env). 2 \<le> length k"
    and w: "\<forall>k\<in>set (map fst env). flagged k \<longrightarrow> unflagged k \<noteq> ''WSLENV''"
  shows "\<exists>out. wsl_env env = Inr out \<and> map_of out ''WSLENV'' = Some (join '':'' (map fst env))"
proof -
  let ?env1 = "AList.update ''WSLENV'' (join '':'' (map fst env)) env"
  obtain out where out: "wsl_env env = Inr out"
    using wsl_env_ok [OF d l] by blast
  then have s: "strip_flags (map fst ?env1) ?env1 = Inr out"
    by (simp add: wsl_env_def Let_def)
  have k1: "set (map fst ?env1) = insert ''WSLENV'' (set (map fst env))"
    using AList.dom_update [of "''WSLENV''" _ env] by simp
  have a: "\<forall>k\<in>set (map fst ?env1). flagged k \<longrightarrow> unflagged k \<noteq> ''WSLENV''"
    using w k1 wslenv_unflagged by auto
  have b: "''WSLENV'' \<in> set (map fst ?env1) \<longrightarrow> \<not> flagged ''WSLENV''"
    using wslenv_unflagged by simp
  have "map_of out ''WSLENV'' = map_of ?env1 ''WSLENV''"
    using s a b by (rule strip_flags_frame)
  then have "map_of out ''WSLENV'' = Some (join '':'' (map fst env))"
    by (simp add: AList.update_conv')
  with out show ?thesis by simp
qed

theorem wsl_env_manifest_witness:
  "distinct (map fst [(''PATH/p'', ''C:'' @ [bsl] @ ''x''), (''HOME'', ''/h'')]) \<and>
   (\<exists>out. wsl_env [(''PATH/p'', ''C:'' @ [bsl] @ ''x''), (''HOME'', ''/h'')] = Inr out \<and>
      map_of out ''WSLENV'' = Some ''PATH/p:HOME'')"
proof -
  let ?env = "[(''PATH/p'', ''C:'' @ [bsl] @ ''x''), (''HOME'', ''/h'')]"
  have d: "distinct (map fst ?env)" by simp
  have l: "\<forall>k\<in>set (map fst ?env). 2 \<le> length k" by simp
  have w: "\<forall>k\<in>set (map fst ?env). flagged k \<longrightarrow> unflagged k \<noteq> ''WSLENV''"
    by (simp add: unflagged_def)
  show ?thesis
    using wsl_env_manifest [OF d l w] d by simp
qed

text \<open>The value of a key \<open>WSLENV/p\<close> replaces the manifest.\<close>

theorem wsl_env_manifest_overwritten:
  "wsl_env [(''WSLENV/p'', ''x'')] = Inr [(''WSLENV'', ''x'')]"
  by (simp add: wsl_env_def has_flag_def item_def pop_def unflagged_def)

text \<open>
  C3, as the code has it. For a mapping whose keys have two characters or more, in which
  no two flagged keys have the same name without the flag and no flagged key is, without
  its flag, again a flagged key of the mapping, the output holds every flagged key's
  value under the name without the flag, and does not hold the flagged key.
\<close>

theorem wsl_env_reemits_flagged:
  assumes d: "distinct (map fst env)" and l: "\<forall>k\<in>set (map fst env). 2 \<le> length k"
    and inj: "\<forall>a\<in>set (map fst env). \<forall>b\<in>set (map fst env).
                flagged a \<and> flagged b \<and> unflagged a = unflagged b \<longrightarrow> a = b"
    and nest: "\<forall>a\<in>set (map fst env). flagged a \<longrightarrow> \<not> (unflagged a \<in> set (map fst env) \<and> flagged (unflagged a))"
  shows "\<exists>out. wsl_env env = Inr out \<and>
           (\<forall>(k, v)\<in>set env. flagged k \<longrightarrow> map_of out (unflagged k) = Some v \<and> map_of out k = None)"
proof -
  let ?env1 = "AList.update ''WSLENV'' (join '':'' (map fst env)) env"
  obtain out where out: "wsl_env env = Inr out"
    using wsl_env_ok [OF d l] by blast
  then have s: "strip_flags (map fst ?env1) ?env1 = Inr out"
    by (simp add: wsl_env_def Let_def)
  have k1: "set (map fst ?env1) = insert ''WSLENV'' (set (map fst env))"
    using AList.dom_update [of "''WSLENV''" _ env] by simp
  have d1: "distinct (map fst ?env1)"
    using d by (rule AList.distinct_update)
  have inj1: "\<forall>a\<in>set (map fst ?env1). \<forall>b\<in>set (map fst ?env1).
                flagged a \<and> flagged b \<and> unflagged a = unflagged b \<longrightarrow> a = b"
    using inj wslenv_unflagged unfolding k1 by auto
  have nest1: "\<forall>a\<in>set (map fst ?env1). flagged a \<longrightarrow>
                 \<not> (unflagged a \<in> set (map fst ?env1) \<and> flagged (unflagged a))"
    using nest wslenv_unflagged unfolding k1 by auto
  have "map_of out (unflagged k) = Some v \<and> map_of out k = None"
    if kv: "(k, v) \<in> set env" and f: "flagged k" for k v
  proof -
    have kin: "k \<in> set (map fst ?env1)"
      using kv unfolding k1 by force
    have e: "map_of out (unflagged k) = map_of ?env1 k \<and> map_of ?env1 k \<noteq> None \<and> map_of out k = None"
      using s d1 inj1 nest1 kin f by (rule strip_flags_emit)
    have "k \<noteq> ''WSLENV''" using f wslenv_unflagged by auto
    then have "map_of ?env1 k = map_of env k"
      by (simp add: AList.update_conv')
    also have "\<dots> = Some v"
      using d kv by simp
    finally show ?thesis using e by simp
  qed
  with out show ?thesis by auto
qed

theorem wsl_env_reemits_flagged_witness:
  "distinct (map fst [(''PATH/p'', ''C:'' @ [bsl] @ ''x'')]) \<and>
   (\<exists>out. wsl_env [(''PATH/p'', ''C:'' @ [bsl] @ ''x'')] = Inr out \<and>
      map_of out ''PATH'' = Some (''C:'' @ [bsl] @ ''x'') \<and> map_of out ''PATH/p'' = None)"
proof -
  let ?env = "[(''PATH/p'', ''C:'' @ [bsl] @ ''x'')]"
  have f: "flagged ''PATH/p''"
    by (simp add: flagged_def has_flag_def item_def)
  have u: "unflagged ''PATH/p'' = ''PATH''"
    by (simp add: unflagged_def)
  have d: "distinct (map fst ?env)" by simp
  have l: "\<forall>k\<in>set (map fst ?env). 2 \<le> length k" by simp
  have i: "\<forall>a\<in>set (map fst ?env). \<forall>b\<in>set (map fst ?env).
             flagged a \<and> flagged b \<and> unflagged a = unflagged b \<longrightarrow> a = b"
    by simp
  have n: "\<forall>a\<in>set (map fst ?env). flagged a \<longrightarrow>
             \<not> (unflagged a \<in> set (map fst ?env) \<and> flagged (unflagged a))"
    by (simp add: u)
  show ?thesis
    using wsl_env_reemits_flagged [OF d l i n] f u d by simp
qed

text \<open>Two flagged keys of one name: the value of \<open>A/p\<close> is lost, \<open>A\<close> holds that of \<open>A/l\<close>.\<close>

theorem wsl_env_flag_collision:
  "wsl_env [(''A/p'', ''1''), (''A/l'', ''2'')] = Inr [(''WSLENV'', ''A/p:A/l''), (''A'', ''2'')]"
  by (simp add: wsl_env_def has_flag_def item_def pop_def unflagged_def)

text \<open>A key with two flags beside the key with one: the flagged key \<open>A/p\<close> is in the
  output.\<close>

lemma wsl_env_nested_flags:
  "wsl_env [(''A/p'', ''2''), (''A/p/p'', ''1'')]
     = Inr [(''WSLENV'', ''A/p:A/p/p''), (''A'', ''2''), (''A/p'', ''1'')]"
  by (simp add: wsl_env_def has_flag_def item_def pop_def unflagged_def)

section \<open>Properties of the orchestration\<close>

lemma add_unix_variables_spec:
  "\<forall>v\<in>set vs. map_of vars v \<noteq> None \<Longrightarrow> \<forall>a\<in>set vs. \<forall>b\<in>set vs. a \<noteq> unix_name b \<Longrightarrow>
   \<exists>t. add_unix_variables vs vars = Inr t \<and>
       (\<forall>k. k \<notin> unix_name ` set vs \<longrightarrow> map_of t k = map_of vars k) \<and>
       (\<forall>v\<in>set vs. \<exists>p u. map_of vars v = Some p \<and> wsl_path p = Inr u \<and>
                        map_of t (unix_name v) = Some u)"
proof (induction vs arbitrary: vars)
  case Nil
  then show ?case by simp
next
  case (Cons v vs)
  from Cons.prems(1) obtain p where p: "map_of vars v = Some p" by auto
  obtain u where u: "wsl_path p = Inr u"
    using wsl_path_total [of p] by blast
  let ?vars = "AList.update (unix_name v) u vars"
  have m: "map_of ?vars = (map_of vars)(unix_name v \<mapsto> u)"
    by (rule AList.update_conv')
  have same: "map_of ?vars w = map_of vars w" if "w \<in> set (v # vs)" for w
    using that Cons.prems(2) by (auto simp: m)
  have "\<forall>w\<in>set vs. map_of ?vars w \<noteq> None"
    using Cons.prems(1) same by simp
  moreover have "\<forall>a\<in>set vs. \<forall>b\<in>set vs. a \<noteq> unix_name b"
    using Cons.prems(2) by simp
  ultimately obtain t where t: "add_unix_variables vs ?vars = Inr t"
    and frame: "\<forall>k. k \<notin> unix_name ` set vs \<longrightarrow> map_of t k = map_of ?vars k"
    and tr: "\<forall>w\<in>set vs. \<exists>p u. map_of ?vars w = Some p \<and> wsl_path p = Inr u \<and>
                        map_of t (unix_name w) = Some u"
    using Cons.IH [of ?vars] by blast
  have r: "add_unix_variables (v # vs) vars = Inr t"
    using p u t by simp
  have f2: "\<forall>k. k \<notin> unix_name ` set (v # vs) \<longrightarrow> map_of t k = map_of vars k"
    using frame by (auto simp: m)
  have t2: "\<exists>p u. map_of vars w = Some p \<and> wsl_path p = Inr u \<and> map_of t (unix_name w) = Some u"
    if w: "w \<in> set (v # vs)" for w
  proof (cases "w \<in> set vs")
    case True
    with tr obtain p u where "map_of ?vars w = Some p" "wsl_path p = Inr u"
      "map_of t (unix_name w) = Some u"
      by blast
    with same [OF w] show ?thesis by metis
  next
    case False
    with w have wv: "w = v" by simp
    with False have "unix_name v \<notin> unix_name ` set vs"
      by (auto simp: unix_name_def)
    with frame have "map_of t (unix_name v) = map_of ?vars (unix_name v)" by blast
    with p u wv show ?thesis by (simp add: m)
  qed
  from r f2 t2 show ?case by blast
qed

lemma path_variables_plain: "\<forall>a\<in>set path_variables. \<forall>b\<in>set path_variables. a \<noteq> unix_name b"
  by (simp add: path_variables_def unix_name_def)

lemma default_variables_plain:
  "\<forall>k\<in>set default_variables. k \<notin> unix_name ` set path_variables"
  by (simp add: path_variables_def default_variables_def unix_name_def)

text \<open>
  C7. In whatever order the loop of \<open>run\<close> visits the six path variables, on a table that
  holds them it returns a table in which every entry but the six \<open>unix_\<close> names is as it
  was, so every variable of the editor keeps its value, and each \<open>unix_\<close> name holds the
  translation of its path variable.
\<close>

theorem add_unix_variables_keeps_originals:
  assumes o: "set order = set path_variables"
    and p: "\<forall>v\<in>set path_variables. map_of variables v \<noteq> None"
  shows "\<exists>t. add_unix_variables order variables = Inr t \<and>
       (\<forall>k. k \<notin> unix_name ` set path_variables \<longrightarrow> map_of t k = map_of variables k) \<and>
       (\<forall>k\<in>set default_variables. map_of t k = map_of variables k) \<and>
       (\<forall>v\<in>set path_variables. \<exists>p u. map_of variables v = Some p \<and> wsl_path p = Inr u \<and>
                        map_of t (unix_name v) = Some u)"
proof -
  have a: "\<forall>v\<in>set order. map_of variables v \<noteq> None"
    using p o by simp
  have b: "\<forall>a\<in>set order. \<forall>b\<in>set order. a \<noteq> unix_name b"
    using path_variables_plain o by simp
  obtain t where t: "add_unix_variables order variables = Inr t"
    and frame: "\<forall>k. k \<notin> unix_name ` set order \<longrightarrow> map_of t k = map_of variables k"
    and tr: "\<forall>w\<in>set order. \<exists>p u. map_of variables w = Some p \<and> wsl_path p = Inr u \<and>
                        map_of t (unix_name w) = Some u"
    using add_unix_variables_spec [OF a b] by blast
  have "\<forall>k\<in>set default_variables. map_of t k = map_of variables k"
    using frame default_variables_plain o by simp
  with t frame tr o show ?thesis by simp
qed

theorem add_unix_variables_keeps_originals_witness:
  "\<exists>t. add_unix_variables path_variables
          [(''file'', ''C:'' @ [bsl] @ ''p'' @ [bsl] @ ''a.rb''), (''file_path'', ''C:'' @ [bsl] @ ''p''),
           (''folder'', ''C:'' @ [bsl] @ ''p''), (''packages'', ''C:'' @ [bsl] @ ''pk''),
           (''project'', ''C:'' @ [bsl] @ ''p'' @ [bsl] @ ''x.proj''),
           (''project_path'', ''C:'' @ [bsl] @ ''p''), (''platform'', ''Windows'')] = Inr t \<and>
        map_of t ''folder'' = Some (''C:'' @ [bsl] @ ''p'') \<and>
        map_of t ''platform'' = Some ''Windows'' \<and>
        map_of t ''unix_folder'' = Some ''/mnt/c/p''"
proof -
  let ?wv = "[(''file'', ''C:'' @ [bsl] @ ''p'' @ [bsl] @ ''a.rb''), (''file_path'', ''C:'' @ [bsl] @ ''p''),
           (''folder'', ''C:'' @ [bsl] @ ''p''), (''packages'', ''C:'' @ [bsl] @ ''pk''),
           (''project'', ''C:'' @ [bsl] @ ''p'' @ [bsl] @ ''x.proj''),
           (''project_path'', ''C:'' @ [bsl] @ ''p''), (''platform'', ''Windows'')]"
  have o: "set path_variables = set path_variables" by simp
  have p: "\<forall>v\<in>set path_variables. map_of ?wv v \<noteq> None"
    by (simp add: path_variables_def)
  from add_unix_variables_keeps_originals [OF o p] obtain t where
    t: "add_unix_variables path_variables ?wv = Inr t" and
    d: "\<forall>k\<in>set default_variables. map_of t k = map_of ?wv k" and
    u: "\<forall>v\<in>set path_variables. \<exists>p u. map_of ?wv v = Some p \<and> wsl_path p = Inr u \<and>
                        map_of t (unix_name v) = Some u"
    by blast
  have "''folder'' \<in> set default_variables" "''platform'' \<in> set default_variables"
    by (simp_all add: default_variables_def)
  with d have f: "map_of t ''folder'' = Some (''C:'' @ [bsl] @ ''p'')"
    "map_of t ''platform'' = Some ''Windows''"
    by simp_all
  have "''folder'' \<in> set path_variables"
    by (simp add: path_variables_def)
  with u obtain p u where "map_of ?wv ''folder'' = Some p" "wsl_path p = Inr u"
    "map_of t (unix_name ''folder'') = Some u"
    by blast
  moreover have "wsl_path (''C:'' @ [bsl] @ ''p'') = Inr ''/mnt/c/p''"
    by code_simp
  ultimately have "map_of t ''unix_folder'' = Some ''/mnt/c/p''"
    by (simp add: unix_name_def)
  with t f show ?thesis by blast
qed

text \<open>A table without one of the six path variables makes the loop raise \<open>KeyError\<close>.\<close>

lemma add_unix_variables_missing:
  "add_unix_variables path_variables [(''platform'', ''Windows'')] = Inl KeyError"
  by (simp add: path_variables_def)

lemma map_of_filter_keys:
  "map_of (filter (\<lambda>(k, v). k \<notin> S) xs) k = (if k \<in> S then None else map_of xs k)"
  by (induction xs) auto

lemma map_of_drop_arguments:
  "map_of (drop_arguments kwargs) k =
     (if k \<in> {''env'', ''shell_cmd'', ''working_dir''} then None else map_of kwargs k)"
  unfolding drop_arguments_def by (rule map_of_filter_keys)

lemma map_of_map_values:
  "map_of (map (map_prod id f) xs) k = map_option f (map_of xs k)"
  by (induction xs) auto

lemma map_of_base_args:
  "map_of (AList.update ''cmd'' x (drop_arguments kwargs)) k =
     (if k = ''cmd'' then Some x
      else if k \<in> {''env'', ''shell_cmd'', ''working_dir''} then None
      else map_of kwargs k)"
  by (simp add: AList.update_conv' map_of_drop_arguments)

text \<open>
  C6. In the parameter set that \<open>run\<close> hands to the engine, \<open>cmd\<close> is the expansion of what
  \<open>wsl_cmd\<close> returns, \<open>shell_cmd\<close> and \<open>working_dir\<close> are absent, and \<open>env\<close> is absent when
  \<open>wsl_env\<close> is \<open>None\<close> or empty and the expansion of what \<open>wsl_env\<close> returns otherwise:
  none of the four comes from the parameters given.
\<close>

theorem run_delegated_fields:
  assumes "run subst window_variables order c cwd e kwargs = Inr args"
  shows "\<exists>cmd variables.
      wsl_cmd c cwd = Inr cmd \<and> add_unix_variables order window_variables = Inr variables \<and>
      map_of args ''cmd'' = Some (expand_variables subst variables (PList (map PStr cmd))) \<and>
      map_of args ''shell_cmd'' = None \<and>
      map_of args ''working_dir'' = None \<and>
      (case e of
         None \<Rightarrow> map_of args ''env'' = None
       | Some env \<Rightarrow>
           if env = [] then map_of args ''env'' = None
           else (\<exists>env'. wsl_env env = Inr env' \<and>
                  map_of args ''env'' =
                    Some (expand_variables subst variables (PDict (map (map_prod id PStr) env')))))"
proof (cases "e = None \<or> e = Some []")
  case True
  with assms obtain cmd variables where
    c: "wsl_cmd c cwd = Inr cmd" and
    v: "add_unix_variables order window_variables = Inr variables" and
    a: "args = map (map_prod id (expand_variables subst variables))
                (AList.update ''cmd'' (PList (map PStr cmd)) (drop_arguments kwargs))"
    by (auto simp: run_def Let_def split: sum.splits)
  have "map_of args ''cmd'' = Some (expand_variables subst variables (PList (map PStr cmd)))"
    "map_of args ''shell_cmd'' = None" "map_of args ''working_dir'' = None"
    "map_of args ''env'' = None"
    unfolding a map_of_map_values by (simp_all add: map_of_base_args)
  with c v True show ?thesis by auto
next
  case False
  then obtain env where e: "e = Some env" "env \<noteq> []" by auto
  with assms obtain cmd variables env' where
    c: "wsl_cmd c cwd = Inr cmd" and
    v: "add_unix_variables order window_variables = Inr variables" and
    w: "wsl_env env = Inr env'" and
    a: "args = map (map_prod id (expand_variables subst variables))
                (AList.update ''env'' (PDict (map (map_prod id PStr) env'))
                  (AList.update ''cmd'' (PList (map PStr cmd)) (drop_arguments kwargs)))"
    by (auto simp: run_def Let_def split: sum.splits)
  have "map_of args ''cmd'' = Some (expand_variables subst variables (PList (map PStr cmd)))"
    "map_of args ''shell_cmd'' = None" "map_of args ''working_dir'' = None"
    "map_of args ''env'' =
       Some (expand_variables subst variables (PDict (map (map_prod id PStr) env')))"
    unfolding a map_of_map_values
    by (simp_all add: AList.update_conv' map_of_drop_arguments)
  with c v w e show ?thesis by auto
qed

theorem run_delegated_fields_witness:
  "\<exists>args. run (\<lambda>variables s. s)
          [(''file'', ''C:'' @ [bsl] @ ''p'' @ [bsl] @ ''a.rb''), (''file_path'', ''C:'' @ [bsl] @ ''p''),
           (''folder'', ''C:'' @ [bsl] @ ''p''), (''packages'', ''C:'' @ [bsl] @ ''pk''),
           (''project'', ''C:'' @ [bsl] @ ''p'' @ [bsl] @ ''x.proj''),
           (''project_path'', ''C:'' @ [bsl] @ ''p''), (''platform'', ''Windows'')]
          path_variables [''make''] (''C:'' @ [bsl] @ ''proj'') (Some [(''PATH/p'', ''x'')])
          [(''cmd'', PList [PStr ''del'']), (''env'', PDict [(''A'', PStr ''1'')]),
           (''shell_cmd'', PStr ''del''), (''working_dir'', PStr ''C:''),
           (''cancel'', PBool True)] = Inr args \<and>
     map_of args ''cmd'' =
       Some (PList [PStr ''wsl'', PStr ''cd'', PStr ''/mnt/c/proj'', PStr '';'', PStr ''make'']) \<and>
     map_of args ''shell_cmd'' = None \<and> map_of args ''working_dir'' = None \<and>
     map_of args ''env'' = Some (PDict [(''WSLENV'', PStr ''PATH/p''), (''PATH'', PStr ''x'')])"
proof -
  let ?wv = "[(''file'', ''C:'' @ [bsl] @ ''p'' @ [bsl] @ ''a.rb''), (''file_path'', ''C:'' @ [bsl] @ ''p''),
           (''folder'', ''C:'' @ [bsl] @ ''p''), (''packages'', ''C:'' @ [bsl] @ ''pk''),
           (''project'', ''C:'' @ [bsl] @ ''p'' @ [bsl] @ ''x.proj''),
           (''project_path'', ''C:'' @ [bsl] @ ''p''), (''platform'', ''Windows'')]"
  let ?kw = "[(''cmd'', PList [PStr ''del'']), (''env'', PDict [(''A'', PStr ''1'')]),
           (''shell_cmd'', PStr ''del''), (''working_dir'', PStr ''C:''),
           (''cancel'', PBool True)]"
  have r: "run (\<lambda>variables s. s) ?wv path_variables [''make''] (''C:'' @ [bsl] @ ''proj'')
             (Some [(''PATH/p'', ''x'')]) ?kw
           = Inr [(''cmd'', PList [PStr ''wsl'', PStr ''cd'', PStr ''/mnt/c/proj'', PStr '';'',
                     PStr ''make'']),
                  (''cancel'', PBool True),
                  (''env'', PDict [(''WSLENV'', PStr ''PATH/p''), (''PATH'', PStr ''x'')])]"
    by code_simp
  have c: "wsl_cmd [''make''] (''C:'' @ [bsl] @ ''proj'')
             = Inr [''wsl'', ''cd'', ''/mnt/c/proj'', '';'', ''make'']"
    by code_simp
  have e: "wsl_env [(''PATH/p'', ''x'')] = Inr [(''WSLENV'', ''PATH/p''), (''PATH'', ''x'')]"
    by code_simp
  from run_delegated_fields [OF r] c e r show ?thesis
    by auto
qed

text \<open>Every other parameter is passed on, expanded.\<close>

lemma run_pass_through:
  assumes "run subst window_variables order c cwd e kwargs = Inr args"
    and "k \<notin> {''cmd'', ''env'', ''shell_cmd'', ''working_dir''}"
  shows "\<exists>variables. add_unix_variables order window_variables = Inr variables \<and>
     map_of args k = map_option (expand_variables subst variables) (map_of kwargs k)"
  using assms
  by (auto simp: run_def Let_def map_of_map_values AList.update_conv' map_of_drop_arguments
      split: sum.splits option.splits if_splits)

text \<open>\<open>run\<close> reaches the engine when the table holds the six path variables and every
  key of \<open>wsl_env\<close> has two characters or more.\<close>

lemma run_returns:
  assumes o: "set order = set path_variables"
    and p: "\<forall>v\<in>set path_variables. map_of window_variables v \<noteq> None"
    and e: "\<And>env. e = Some env \<Longrightarrow> distinct (map fst env) \<and> (\<forall>k\<in>set (map fst env). 2 \<le> length k)"
  shows "\<exists>args. run subst window_variables order c cwd e kwargs = Inr args"
proof -
  obtain cmd where c: "wsl_cmd c cwd = Inr cmd"
    using wsl_cmd_total by blast
  obtain variables where v: "add_unix_variables order window_variables = Inr variables"
    using add_unix_variables_spec [of order window_variables] o p path_variables_plain
    by auto
  show ?thesis
  proof (cases e)
    case None
    with c v show ?thesis by (simp add: run_def)
  next
    case (Some env)
    with e obtain env' where "env \<noteq> [] \<Longrightarrow> wsl_env env = Inr env'"
      using wsl_env_ok [of env] by blast
    with Some c v show ?thesis by (cases "env = []") (simp_all add: run_def)
  qed
qed

section \<open>The earlier revision\<close>

text \<open>In \<open>src/main.py\<close> a drive path only has its backslashes replaced, only the distro
  \<open>Ubuntu\<close> is removed, and a flagged key stays as it is.\<close>

lemma main_wsl_path_drive: "main_wsl_path (''X:'' @ [bsl] @ ''a'') = ''X:/a''"
  by (simp add: main_wsl_path_def main_unc_match_def replace_bsl_def)

lemma main_wsl_path_ubuntu:
  "main_wsl_path (unc_prefix @ ''Ubuntu'' @ [bsl] @ ''a'') = ''/a''"
  by (simp add: main_wsl_path_def main_unc_match_def replace_bsl_def unc_prefix_def)

lemma main_wsl_path_other_distro:
  "main_wsl_path (unc_prefix @ ''Debian'' @ [bsl] @ ''a'') = ''//wsl.localhost/Debian/a''"
  by (simp add: main_wsl_path_def main_unc_match_def replace_bsl_def unc_prefix_def)

lemma main_wsl_env_flag:
  "main_wsl_env [(''PATH/p'', ''x'')] = [(''PATH/p'', ''x''), (''WSLENV'', ''PATH/p'')]"
  by (simp add: main_wsl_env_def)

end
